theory Spec2Isabelle
  imports Main "HOL-Library.Multiset"
begin

section \<open>The text input control (InputField.tsx)\<close>

text \<open>
  The component is a function of its props and of one piece of local state. Optional
  boolean props are taken after their defaults have been applied (\<open>disabled = false\<close>,
  \<open>invalid = false\<close>, \<open>loading = false\<close>, \<open>showClearButton = false\<close>,
  \<open>type = 'text'\<close>); optional strings are \<open>string option\<close>, \<open>None\<close> for
  \<open>undefined\<close>. A callback prop is represented by whether the caller supplied it; what
  the component calls is recorded in the result of \<open>click\<close>. Styling props and class
  names are left out. The view holds the attributes that the component computes; an
  attribute that the caller passes through the rest spread \<open>{...props}\<close> (every prop
  the component does not name) is the caller's own and is not part of the view.
\<close>

record input_props =
  label :: "string option"
  helperText :: "string option"
  errorMessage :: "string option"
  disabled :: bool
  invalid :: bool
  loading :: bool
  input_type :: string
  input_value :: "string option"
  onClear :: bool
  showClearButton :: bool
  input_id :: "string option"

text \<open>\<open>useState(false)\<close> and \<open>useId()\<close>: the local state of one instance.\<close>

record input_state =
  isPasswordVisible :: bool
  generatedId :: string

text \<open>JavaScript truthiness of an optional string: \<open>undefined\<close> and \<open>''\<close> are falsy.\<close>

definition truthy :: "string option \<Rightarrow> bool" where
  "truthy s = (case s of None \<Rightarrow> False | Some t \<Rightarrow> t \<noteq> [])"

datatype handler = OnClear | TogglePasswordVisibility

datatype callback = ClearCalled

record button =
  aria_label :: string
  button_disabled :: bool
  onClick :: handler

record description =
  p_id :: string
  p_text :: string

text \<open>What one render returns: the elements the claims speak about, with their attributes.\<close>

record input_view =
  label_for :: "string option"
  spinner :: bool
  el_id :: string
  el_type :: string
  el_disabled :: bool
  el_value :: "string option"
  aria_invalid :: bool
  aria_describedby :: "string option"
  clear_button :: "button option"
  password_toggle :: "button option"
  help_text :: "description option"
  error_text :: "description option"

definition text_of :: "string option \<Rightarrow> string" where
  "text_of s = (case s of None \<Rightarrow> [] | Some t \<Rightarrow> t)"

definition inputId :: "input_props \<Rightarrow> input_state \<Rightarrow> string" where
  "inputId p s = (case input_id p of Some i \<Rightarrow> i | None \<Rightarrow> generatedId s)"

definition currentType :: "input_props \<Rightarrow> input_state \<Rightarrow> string" where
  "currentType p s =
     (if input_type p = ''password'' \<and> isPasswordVisible s then ''text'' else input_type p)"

definition describedById :: "input_props \<Rightarrow> input_state \<Rightarrow> string option" where
  "describedById p s =
     (if invalid p \<and> truthy (errorMessage p) then Some (inputId p s @ ''-error'')
      else if truthy (helperText p) then Some (inputId p s @ ''-help'')
      else None)"

definition InputField :: "input_props \<Rightarrow> input_state \<Rightarrow> input_view" where
  "InputField p s =
     \<lparr> label_for = (if truthy (label p) then Some (inputId p s) else None),
       spinner = loading p,
       el_id = inputId p s,
       el_type = currentType p s,
       el_disabled = (disabled p \<or> loading p),
       el_value = input_value p,
       aria_invalid = invalid p,
       aria_describedby = describedById p s,
       clear_button =
         (if showClearButton p \<and> truthy (input_value p) \<and> \<not> disabled p
          then Some \<lparr> aria_label = ''Clear input'', button_disabled = False, onClick = OnClear \<rparr>
          else None),
       password_toggle =
         (if input_type p = ''password''
          then Some \<lparr> aria_label =
                        (if isPasswordVisible s then ''Hide password'' else ''Show password''),
                      button_disabled = (disabled p \<or> loading p),
                      onClick = TogglePasswordVisibility \<rparr>
          else None),
       help_text =
         (if truthy (helperText p) \<and> \<not> invalid p
          then Some \<lparr> p_id = inputId p s @ ''-help'', p_text = text_of (helperText p) \<rparr>
          else None),
       error_text =
         (if truthy (errorMessage p) \<and> invalid p
          then Some \<lparr> p_id = inputId p s @ ''-error'', p_text = text_of (errorMessage p) \<rparr>
          else None) \<rparr>"

text \<open>
  Activating a rendered button. A disabled button dispatches no click. \<open>onClear\<close> is
  the caller's function, called if supplied; the toggle flips the local boolean.
\<close>

definition click :: "input_props \<Rightarrow> input_state \<Rightarrow> button \<Rightarrow> input_state \<times> callback list" where
  "click p s b =
     (if button_disabled b then (s, [])
      else case onClick b of
             OnClear \<Rightarrow> (s, if onClear p then [ClearCalled] else [])
           | TogglePasswordVisibility \<Rightarrow>
               (s\<lparr> isPasswordVisible := \<not> isPasswordVisible s \<rparr>, []))"

text \<open>The ids of the description paragraphs that a view contains.\<close>

definition rendered_description_ids :: "input_view \<Rightarrow> string set" where
  "rendered_description_ids v =
     (case help_text v of None \<Rightarrow> {} | Some h \<Rightarrow> {p_id h}) \<union>
     (case error_text v of None \<Rightarrow> {} | Some e \<Rightarrow> {p_id e})"

text \<open>An invalid field with helper text and no error message.\<close>

definition invalid_with_helper :: input_props where
  "invalid_with_helper =
     \<lparr> label = Some ''Name'', helperText = Some ''Hint'', errorMessage = None,
       disabled = False, invalid = True, loading = False, input_type = ''text'',
       input_value = Some ''abc'', onClear = True, showClearButton = True,
       input_id = Some ''name'' \<rparr>"

definition fresh_state :: input_state where
  "fresh_state = \<lparr> isPasswordVisible = False, generatedId = '':r0:'' \<rparr>"

text \<open>A password field that is loading, with a value and the clear button requested.\<close>

definition loading_password :: input_props where
  "loading_password =
     \<lparr> label = None, helperText = None, errorMessage = None,
       disabled = False, invalid = False, loading = True, input_type = ''password'',
       input_value = Some ''secret'', onClear = True, showClearButton = True,
       input_id = None \<rparr>"

section \<open>The tabular display control (DataTable.tsx)\<close>

text \<open>
  \<open>React.Key\<close> is a string or a number, and \<open>Set\<close> membership tells \<open>1\<close> from
  \<open>'1'\<close>. A row is its \<open>id\<close> and its other fields, read by name; the type \<open>'v\<close> of
  field values is the generic parameter of the component. A column on \<open>'id'\<close> itself is
  a cell carrying the same value. A column's React \<open>key\<close> is used for nothing but
  reconciliation and is left out.
\<close>

datatype react_key = KeyNum int | KeyStr string

record 'v row =
  row_id :: react_key
  cells :: "string \<Rightarrow> 'v"

record 'v column =
  title :: string
  dataIndex :: string
  sortable :: bool
  sorter :: "('v row \<Rightarrow> 'v row \<Rightarrow> int) option"

datatype sort_direction = ascending | descending

record sort_config =
  key :: string
  direction :: sort_direction

text \<open>
  \<open>onRowSelect\<close> is whether the caller supplied the callback; the calls made are
  returned by the handlers. \<open>rowClassName\<close> and the two messages only style or replace
  markup and are left out.
\<close>

record 'v props =
  data :: "'v row list"
  columns :: "'v column list"
  loading :: bool
  selectable :: bool
  onRowSelect :: bool

subsection \<open>Sorting (the \<open>useMemo\<close> at lines 56 to 82)\<close>

text \<open>
  Lines 66 to 75. \<open>lt\<close> is JavaScript's \<open><\<close> on field values; \<open>a > b\<close> is
  \<open>lt b a\<close>. \<open>col?.sorter\<close> is absent when no column has the key or the column has no
  sorter. A comparator's result is taken to be an integer.
\<close>

definition default_compare :: "('v \<Rightarrow> 'v \<Rightarrow> bool) \<Rightarrow> 'v \<Rightarrow> 'v \<Rightarrow> int" where
  "default_compare lt aValue bValue =
     (if lt aValue bValue then - 1 else if lt bValue aValue then 1 else 0)"

definition primary_compare ::
  "('v \<Rightarrow> 'v \<Rightarrow> bool) \<Rightarrow> 'v column list \<Rightarrow> string \<Rightarrow> 'v row \<Rightarrow> 'v row \<Rightarrow> int" where
  "primary_compare lt cols k a b =
     (case Option.bind (find (\<lambda>c. dataIndex c = k) cols) sorter of
        Some f \<Rightarrow> f a b
      | None \<Rightarrow> default_compare lt (cells a k) (cells b k))"

definition multiplier :: "sort_direction \<Rightarrow> int" where
  "multiplier d = (if d = ascending then 1 else - 1)"

text \<open>The comparator handed to \<open>sort\<close>, on rows paired with their index (index first).\<close>

definition compare_decorated ::
  "('v \<Rightarrow> 'v \<Rightarrow> bool) \<Rightarrow> 'v column list \<Rightarrow> sort_config \<Rightarrow> nat \<times> 'v row \<Rightarrow> nat \<times> 'v row \<Rightarrow> int" where
  "compare_decorated lt cols sc a b =
     (let cmp = primary_compare lt cols (key sc) (snd a) (snd b)
      in if cmp \<noteq> 0 then cmp * multiplier (direction sc) else int (fst a) - int (fst b))"

text \<open>
  \<open>Array.prototype.sort\<close> belongs to the JavaScript engine, not to the component, and
  is the parameter \<open>array_sort\<close>. ECMAScript fixes its result for a consistent comparator
  only; for any other comparator the order is left to the engine.
\<close>

definition sorted_decorated ::
  "((nat \<times> 'v row \<Rightarrow> nat \<times> 'v row \<Rightarrow> int) \<Rightarrow> (nat \<times> 'v row) list \<Rightarrow> (nat \<times> 'v row) list) \<Rightarrow>
   ('v \<Rightarrow> 'v \<Rightarrow> bool) \<Rightarrow> 'v column list \<Rightarrow> sort_config \<Rightarrow> 'v row list \<Rightarrow> (nat \<times> 'v row) list" where
  "sorted_decorated array_sort lt cols sc rows = array_sort (compare_decorated lt cols sc) (enumerate 0 rows)"

definition sortedData ::
  "((nat \<times> 'v row \<Rightarrow> nat \<times> 'v row \<Rightarrow> int) \<Rightarrow> (nat \<times> 'v row) list \<Rightarrow> (nat \<times> 'v row) list) \<Rightarrow>
   ('v \<Rightarrow> 'v \<Rightarrow> bool) \<Rightarrow> 'v column list \<Rightarrow> sort_config option \<Rightarrow> 'v row list \<Rightarrow> 'v row list" where
  "sortedData array_sort lt cols cfg rows =
     (case cfg of None \<Rightarrow> rows | Some sc \<Rightarrow> map snd (sorted_decorated array_sort lt cols sc rows))"

text \<open>
  A consistent comparator on a set of values: the sign of \<open>cmp a b\<close> is opposite to
  that of \<open>cmp b a\<close>, and "not after" is transitive.
\<close>

definition consistent_comparator :: "'a set \<Rightarrow> ('a \<Rightarrow> 'a \<Rightarrow> int) \<Rightarrow> bool" where
  "consistent_comparator S cmp =
     ((\<forall>a\<in>S. \<forall>b\<in>S. (cmp a b < 0) = (0 < cmp b a)) \<and>
      (\<forall>a\<in>S. \<forall>b\<in>S. \<forall>c\<in>S. cmp a b \<le> 0 \<and> cmp b c \<le> 0 \<longrightarrow> cmp a c \<le> 0))"

text \<open>
  What ECMAScript asks of every engine: the result is a permutation of the array, and
  for a consistent comparator no element comes after one it compares below.
\<close>

definition conforming_sort :: "(('a \<Rightarrow> 'a \<Rightarrow> int) \<Rightarrow> 'a list \<Rightarrow> 'a list) \<Rightarrow> bool" where
  "conforming_sort array_sort =
     (\<forall>cmp xs. mset (array_sort cmp xs) = mset xs \<and>
        (consistent_comparator (set xs) cmp \<longrightarrow> sorted_wrt (\<lambda>a b. cmp a b \<le> 0) (array_sort cmp xs)))"

text \<open>
  One engine: V8 (Node, Chrome), as it sorts an array of fewer than 64 elements
  (\<open>array-sort.tq\<close>). The minimum run length is then the length of the array, so there
  is one run and nothing to merge: \<open>CountAndMakeRun\<close> finds the run at the front, which
  is turned round when it descends, and \<open>BinaryInsertionSort\<close> puts the other elements
  in, one after the other, each at the place a binary search finds.
\<close>

fun run_tail :: "('a \<Rightarrow> 'a \<Rightarrow> int) \<Rightarrow> bool \<Rightarrow> 'a \<Rightarrow> 'a list \<Rightarrow> nat" where
  "run_tail cmp isDescending previousElement [] = 0"
| "run_tail cmp isDescending previousElement (currentElement # rest) =
     (if (if isDescending then cmp currentElement previousElement \<ge> 0
          else cmp currentElement previousElement < 0)
      then 0
      else Suc (run_tail cmp isDescending currentElement rest))"

definition count_and_make_run :: "('a \<Rightarrow> 'a \<Rightarrow> int) \<Rightarrow> 'a list \<Rightarrow> nat \<times> 'a list" where
  "count_and_make_run cmp xs =
     (case xs of
        elementHigh # elementLow # rest \<Rightarrow>
          (let isDescending = cmp elementLow elementHigh < 0;
               runLength = 2 + run_tail cmp isDescending elementLow rest
           in (runLength,
               if isDescending then rev (take runLength xs) @ drop runLength xs else xs))
      | _ \<Rightarrow> (length xs, xs))"

function binary_search :: "('a \<Rightarrow> 'a \<Rightarrow> int) \<Rightarrow> 'a \<Rightarrow> 'a list \<Rightarrow> nat \<Rightarrow> nat \<Rightarrow> nat" where
  "binary_search cmp pivot xs left right =
     (if left < right
      then (let mid = left + (right - left) div 2
            in if cmp pivot (xs ! mid) < 0
               then binary_search cmp pivot xs left mid
               else binary_search cmp pivot xs (mid + 1) right)
      else left)"
  by pat_completeness auto
termination
  by (relation "measure (\<lambda>(cmp, pivot, xs, left, right). right - left)") auto

declare binary_search.simps [simp del]

fun binary_insertion :: "('a \<Rightarrow> 'a \<Rightarrow> int) \<Rightarrow> 'a list \<Rightarrow> 'a list \<Rightarrow> 'a list" where
  "binary_insertion cmp sorted_part [] = sorted_part"
| "binary_insertion cmp sorted_part (pivot # rest) =
     (let left = binary_search cmp pivot sorted_part 0 (length sorted_part)
      in binary_insertion cmp (take left sorted_part @ pivot # drop left sorted_part) rest)"

definition v8_sort :: "('a \<Rightarrow> 'a \<Rightarrow> int) \<Rightarrow> 'a list \<Rightarrow> 'a list" where
  "v8_sort cmp xs =
     (let (runLength, ys) = count_and_make_run cmp xs
      in binary_insertion cmp (take runLength ys) (drop runLength ys))"

text \<open>
  The order the claim describes, for a comparison \<open>cmp\<close> of rows and a direction:
  the rows paired with their original index, arranged so that of any two the one placed
  first comes first by \<open>cmp\<close> (negated for descending), or the two compare equal and
  the one placed first has the smaller original index.
\<close>

definition stable_sorted_by ::
  "('v row \<Rightarrow> 'v row \<Rightarrow> int) \<Rightarrow> sort_direction \<Rightarrow> 'v row list \<Rightarrow> (nat \<times> 'v row) list \<Rightarrow> bool" where
  "stable_sorted_by cmp d rows ds =
     (mset ds = mset (enumerate 0 rows) \<and>
      sorted_wrt
        (\<lambda>a b. let c = (if d = ascending then cmp (snd a) (snd b) else - cmp (snd a) (snd b))
                in c < 0 \<or> (c = 0 \<and> fst a < fst b))
        ds)"

subsection \<open>State, handlers and the render cycle\<close>

definition requestSort :: "string \<Rightarrow> sort_config option \<Rightarrow> sort_config" where
  "requestSort k prev =
     (if (case prev of None \<Rightarrow> False | Some c \<Rightarrow> key c = k \<and> direction c = ascending)
      then \<lparr> key = k, direction = descending \<rparr>
      else \<lparr> key = k, direction = ascending \<rparr>)"

text \<open>
  The select-all checkbox as a DOM node: \<open>checked\<close> is written by every render,
  \<open>indeterminate\<close> only by the effect through \<open>selectAllRef\<close>. A node that has just been
  created is not indeterminate.
\<close>

record checkbox =
  checked :: bool
  indeterminate :: bool

text \<open>
  One mounted instance: the latest props, the two \<open>useState\<close> cells, and the node
  \<open>selectAllRef.current\<close> points to (\<open>None\<close> for \<open>null\<close>).
\<close>

record 'v table =
  props :: "'v props"
  sortConfig :: "sort_config option"
  selectedRowIds :: "react_key set"
  selectAll :: "checkbox option"

datatype render_state = Loading | Empty | Populated

definition render_state :: "'v props \<Rightarrow> render_state" where
  "render_state p = (if loading p then Loading else if data p = [] then Empty else Populated)"

definition header_checked :: "'v table \<Rightarrow> bool" where
  "header_checked w =
     (card (selectedRowIds w) = length (data (props w)) \<and> length (data (props w)) > 0)"

definition isSorted :: "'v table \<Rightarrow> 'v column \<Rightarrow> bool" where
  "isSorted w col = (case sortConfig w of None \<Rightarrow> False | Some sc \<Rightarrow> key sc = dataIndex col)"

text \<open>
  Both handlers build the new set, store it, and call \<open>onRowSelect\<close> (if supplied) with
  the rows of \<open>data\<close> whose id is in the new set.
\<close>

definition handleSelectAll :: "bool \<Rightarrow> 'v table \<Rightarrow> 'v table \<times> 'v row list list" where
  "handleSelectAll chk w =
     (let newSelectedRowIds = (if chk then set (map row_id (data (props w))) else {})
      in (w\<lparr> selectedRowIds := newSelectedRowIds \<rparr>,
          if onRowSelect (props w)
          then [filter (\<lambda>row. row_id row \<in> newSelectedRowIds) (data (props w))] else []))"

definition handleSelectRow :: "react_key \<Rightarrow> bool \<Rightarrow> 'v table \<Rightarrow> 'v table \<times> 'v row list list" where
  "handleSelectRow i chk w =
     (let newSelectedRowIds = (if chk then insert i (selectedRowIds w) else selectedRowIds w - {i})
      in (w\<lparr> selectedRowIds := newSelectedRowIds \<rparr>,
          if onRowSelect (props w)
          then [filter (\<lambda>row. row_id row \<in> newSelectedRowIds) (data (props w))] else []))"

text \<open>
  A render pass followed by the commit: the select-all node exists exactly when the
  populated table is rendered with \<open>selectable\<close>; a node that stays keeps its
  \<open>indeterminate\<close> flag.
\<close>

definition commit :: "'v table \<Rightarrow> 'v table" where
  "commit w =
     w\<lparr> selectAll :=
          (if render_state (props w) = Populated \<and> selectable (props w)
           then Some \<lparr> checked = header_checked w,
                       indeterminate =
                         (case selectAll w of None \<Rightarrow> False | Some c \<Rightarrow> indeterminate c) \<rparr>
           else None) \<rparr>"

text \<open>The effect at lines 44 to 49, dependencies \<open>[selectedRowIds, data]\<close>.\<close>

definition sync_indeterminate :: "'v table \<Rightarrow> 'v table" where
  "sync_indeterminate w =
     (case selectAll w of
        None \<Rightarrow> w
      | Some c \<Rightarrow>
          w\<lparr> selectAll :=
               Some (c\<lparr> indeterminate :=
                          (card (selectedRowIds w) > 0 \<and>
                           card (selectedRowIds w) < length (data (props w))) \<rparr>) \<rparr>)"

text \<open>The effect at lines 51 to 54, dependencies \<open>[data]\<close>.\<close>

definition clear_selection :: "'v table \<Rightarrow> 'v table" where
  "clear_selection w = w\<lparr> selectedRowIds := {} \<rparr>"

text \<open>
  One render cycle, up to the state in which the component waits for the next event.
  The pass is committed; then the effects whose dependencies changed run in the order
  of their declaration. The first argument says that \<open>selectedRowIds\<close> is a new
  \<open>Set\<close> object, the second that \<open>data\<close> is a new array object. Clearing the selection
  stores a new set, so a second pass follows, after which only the first effect runs.
\<close>

definition settle :: "bool \<Rightarrow> bool \<Rightarrow> 'v table \<Rightarrow> 'v table" where
  "settle selection_replaced data_replaced w =
     (let w1 = commit w;
          w2 = (if selection_replaced \<or> data_replaced then sync_indeterminate w1 else w1)
      in if data_replaced then sync_indeterminate (commit (clear_selection w2)) else w2)"

text \<open>Mounting: the initial state, and every effect runs after the first pass.\<close>

definition mount :: "'v props \<Rightarrow> 'v table" where
  "mount p =
     settle True True \<lparr> props = p, sortConfig = None, selectedRowIds = {}, selectAll = None \<rparr>"

text \<open>
  What can happen to a mounted instance. \<open>Rerender fresh p\<close>: the parent renders it
  with props \<open>p\<close>, and \<open>fresh\<close> says that \<open>data\<close> is another array object than at the
  previous render; props are immutable, so the same object has the same rows.
  \<open>ClickHeader k\<close>: a click on the header button of a column with \<open>dataIndex\<close> \<open>k\<close>.
  \<open>ToggleAll chk\<close> and \<open>ToggleRow i chk\<close>: a change event of the select-all checkbox,
  or of the checkbox of the row with id \<open>i\<close>, with \<open>event.target.checked = chk\<close>.
\<close>

datatype 'v event =
    Rerender bool "'v props"
  | ClickHeader string
  | ToggleAll bool
  | ToggleRow react_key bool

text \<open>An event can be dispatched only by a control that the current render contains.\<close>

definition enabled :: "'v table \<Rightarrow> 'v event \<Rightarrow> bool" where
  "enabled w e =
     (case e of
        Rerender fresh p \<Rightarrow> True
      | ClickHeader k \<Rightarrow>
          render_state (props w) = Populated \<and>
          (\<exists>c \<in> set (columns (props w)). sortable c \<and> dataIndex c = k)
      | ToggleAll chk \<Rightarrow> render_state (props w) = Populated \<and> selectable (props w)
      | ToggleRow i chk \<Rightarrow>
          render_state (props w) = Populated \<and> selectable (props w) \<and>
          i \<in> set (map row_id (data (props w))))"

definition step :: "'v table \<Rightarrow> 'v event \<Rightarrow> 'v table \<times> 'v row list list" where
  "step w e =
     (if \<not> enabled w e then (w, [])
      else case e of
        Rerender fresh p \<Rightarrow>
          (settle False fresh (w\<lparr> props := (if fresh then p else p\<lparr> data := data (props w) \<rparr>) \<rparr>), [])
      | ClickHeader k \<Rightarrow>
          (settle False False (w\<lparr> sortConfig := Some (requestSort k (sortConfig w)) \<rparr>), [])
      | ToggleAll chk \<Rightarrow>
          (settle True False (fst (handleSelectAll chk w)), snd (handleSelectAll chk w))
      | ToggleRow i chk \<Rightarrow>
          (settle True False (fst (handleSelectRow i chk w)), snd (handleSelectRow i chk w)))"

fun run :: "'v table \<Rightarrow> 'v event list \<Rightarrow> 'v table" where
  "run w [] = w"
| "run w (e # es) = run (fst (step w e)) es"

text \<open>
  The first pass of the cycle that a render by the parent starts: the component
  function runs with the new props and the state as it is, and the result is committed.
  The effects come after it.
\<close>

definition first_pass :: "'v table \<Rightarrow> bool \<Rightarrow> 'v props \<Rightarrow> 'v table" where
  "first_pass w fresh p =
     commit (w\<lparr> props := (if fresh then p else p\<lparr> data := data (props w) \<rparr>) \<rparr>)"

subsection \<open>Example tables\<close>

definition person :: "int \<Rightarrow> int \<Rightarrow> int row" where
  "person i age = \<lparr> row_id = KeyNum i, cells = (\<lambda>k. if k = ''age'' then age else 0) \<rparr>"

definition age_column :: "int column" where
  "age_column = \<lparr> title = ''Age'', dataIndex = ''age'', sortable = True, sorter = None \<rparr>"

definition three_people :: "int row list" where
  "three_people = [person 1 32, person 2 28, person 3 45]"

definition two_row_props :: "int props" where
  "two_row_props =
     \<lparr> data = [person 1 32, person 2 28], columns = [age_column], loading = False,
       selectable = True, onRowSelect = True \<rparr>"

definition by_age :: "sort_direction \<Rightarrow> sort_config" where
  "by_age d = \<lparr> key = ''age'', direction = d \<rparr>"

text \<open>Another array, with other rows.\<close>

definition other_two_props :: "int props" where
  "other_two_props =
     \<lparr> data = [person 3 45, person 4 22], columns = [age_column], loading = False,
       selectable = True, onRowSelect = True \<rparr>"

text \<open>A column with a \<open>sorter\<close> of its own, and rows of which two pairs tie.\<close>

definition age_sorter :: "int row \<Rightarrow> int row \<Rightarrow> int" where
  "age_sorter a b = cells a ''age'' - cells b ''age''"

definition sorter_column :: "int column" where
  "sorter_column =
     \<lparr> title = ''Age'', dataIndex = ''age'', sortable = True, sorter = Some age_sorter \<rparr>"

definition tied_people :: "int row list" where
  "tied_people = [person 1 30, person 2 25, person 3 30, person 4 25]"

text \<open>
  Rows of which one has no \<open>age\<close>: the field is a number or \<open>undefined\<close>, and
  JavaScript's \<open><\<close> is false when a side is \<open>undefined\<close>.
\<close>

definition lt_or_undefined :: "int option \<Rightarrow> int option \<Rightarrow> bool" where
  "lt_or_undefined a b = (case (a, b) of (Some x, Some y) \<Rightarrow> x < y | _ \<Rightarrow> False)"

definition maybe_aged :: "int \<Rightarrow> int option \<Rightarrow> int option row" where
  "maybe_aged i age = \<lparr> row_id = KeyNum i, cells = (\<lambda>k. if k = ''age'' then age else None) \<rparr>"

definition optional_age_column :: "int option column" where
  "optional_age_column =
     \<lparr> title = ''Age'', dataIndex = ''age'', sortable = True, sorter = None \<rparr>"

definition one_without_age :: "int option row list" where
  "one_without_age =
     [maybe_aged 1 (Some 45), maybe_aged 2 (Some 28), maybe_aged 3 None, maybe_aged 4 (Some 32)]"

text \<open>Two sortable columns that show the same field.\<close>

definition first_name_column :: "int column" where
  "first_name_column =
     \<lparr> title = ''First name'', dataIndex = ''name'', sortable = True, sorter = None \<rparr>"

definition last_name_column :: "int column" where
  "last_name_column =
     \<lparr> title = ''Last name'', dataIndex = ''name'', sortable = True, sorter = None \<rparr>"

definition two_name_props :: "int props" where
  "two_name_props =
     \<lparr> data = [person 1 32, person 2 28], columns = [first_name_column, last_name_column],
       loading = False, selectable = False, onRowSelect = False \<rparr>"

subsection \<open>Predicates used in the proofs\<close>

text \<open>The selection contains only ids of rows of the current data.\<close>

definition selection_ok :: "'v table \<Rightarrow> bool" where
  "selection_ok w = (selectedRowIds w \<subseteq> set (map row_id (data (props w))))"

section \<open>Properties of the text input control\<close>

text \<open>
  C1. The input is to be described by the paragraph that is shown. At an invalid field
  with helper text and no error message the computed \<open>aria-describedby\<close> is the helper
  paragraph's id although no paragraph is rendered.
\<close>

theorem describedById_dangling:
  "aria_describedby (InputField invalid_with_helper fresh_state) = Some ''name-help'' \<and>
   help_text (InputField invalid_with_helper fresh_state) = None \<and>
   error_text (InputField invalid_with_helper fresh_state) = None \<and>
   rendered_description_ids (InputField invalid_with_helper fresh_state) = {}"
  by (simp add: InputField_def describedById_def invalid_with_helper_def fresh_state_def
      truthy_def inputId_def rendered_description_ids_def)

text \<open>
  C7. The clear button is rendered exactly when \<open>showClearButton\<close> is set, the value is
  non-empty and the field is not disabled. Activating it calls the caller's \<open>onClear\<close>
  and leaves the local state, hence the displayed value, as it was.
\<close>

theorem clear_button_iff:
  "(clear_button (InputField p s) \<noteq> None) =
     (showClearButton p \<and> truthy (input_value p) \<and> \<not> disabled p) \<and>
   (\<forall>b. clear_button (InputField p s) = Some b \<longrightarrow>
      click p s b = (s, if onClear p then [ClearCalled] else []) \<and>
      el_value (InputField p (fst (click p s b))) = el_value (InputField p s))"
  by (auto simp: InputField_def click_def)

theorem clear_button_iff_witness:
  "clear_button (InputField invalid_with_helper fresh_state) \<noteq> None \<and>
   click invalid_with_helper fresh_state
     (the (clear_button (InputField invalid_with_helper fresh_state))) =
     (fresh_state, [ClearCalled])"
proof -
  have shown: "clear_button (InputField invalid_with_helper fresh_state) \<noteq> None"
    using clear_button_iff [of invalid_with_helper fresh_state]
    by (simp add: invalid_with_helper_def truthy_def)
  then obtain b where b: "clear_button (InputField invalid_with_helper fresh_state) = Some b"
    by blast
  have "click invalid_with_helper fresh_state b = (fresh_state, [ClearCalled])"
    using clear_button_iff [of invalid_with_helper fresh_state] b
    by (simp add: invalid_with_helper_def)
  with shown b show ?thesis by simp
qed

text \<open>
  C8, as the claim states it: when no error text is shown, helper text is shown iff it
  is supplied. An invalid field with helper text and no error message shows neither.
\<close>

theorem helper_hidden_when_invalid:
  "error_text (InputField invalid_with_helper fresh_state) = None \<and>
   truthy (helperText invalid_with_helper) \<and>
   help_text (InputField invalid_with_helper fresh_state) = None"
  by (simp add: InputField_def invalid_with_helper_def truthy_def)

text \<open>
  C8, amended. Error text is shown iff the field is invalid and a non-empty error
  message is supplied; helper text is shown iff non-empty helper text is supplied and the
  field is not invalid; the two are never shown together.
\<close>

theorem helper_error_exclusive:
  "(error_text (InputField p s) \<noteq> None) = (invalid p \<and> truthy (errorMessage p)) \<and>
   (help_text (InputField p s) \<noteq> None) = (truthy (helperText p) \<and> \<not> invalid p) \<and>
   \<not> (help_text (InputField p s) \<noteq> None \<and> error_text (InputField p s) \<noteq> None)"
  by (auto simp: InputField_def)

text \<open>
  C9. While \<open>loading\<close> is set and \<open>disabled\<close> is not, the input element is disabled and
  so is the password toggle if there is one, but the clear button, when requested on a
  non-empty value, is rendered and enabled, and a click on it reaches \<open>onClear\<close>.
\<close>

theorem clear_enabled_while_loading:
  assumes "input_props.loading p" and "\<not> disabled p"
  shows "el_disabled (InputField p s) \<and>
         (\<forall>b. password_toggle (InputField p s) = Some b \<longrightarrow> button_disabled b) \<and>
         (showClearButton p \<and> truthy (input_value p) \<longrightarrow>
            (\<exists>b. clear_button (InputField p s) = Some b \<and> \<not> button_disabled b \<and>
                 click p s b = (s, if onClear p then [ClearCalled] else [])))"
  using assms by (auto simp: InputField_def click_def)

theorem clear_enabled_while_loading_witness:
  "input_props.loading loading_password \<and> \<not> disabled loading_password \<and>
   el_disabled (InputField loading_password fresh_state) \<and>
   button_disabled (the (password_toggle (InputField loading_password fresh_state))) \<and>
   \<not> button_disabled (the (clear_button (InputField loading_password fresh_state))) \<and>
   click loading_password fresh_state
     (the (clear_button (InputField loading_password fresh_state))) =
     (fresh_state, [ClearCalled])"
proof -
  have l: "input_props.loading loading_password" and d: "\<not> disabled loading_password"
    by (simp_all add: loading_password_def)
  have t: "password_toggle (InputField loading_password fresh_state) \<noteq> None"
    by (simp add: InputField_def loading_password_def)
  have v: "showClearButton loading_password \<and> truthy (input_value loading_password)"
    by (simp add: loading_password_def truthy_def)
  from clear_enabled_while_loading [OF l d, of fresh_state] v t l d
  show ?thesis by (auto simp: loading_password_def)
qed

section \<open>Properties of the tabular display control\<close>

subsection \<open>What a render cycle changes\<close>

lemma settle_props [simp]: "props (settle a b w) = props w"
  by (simp add: settle_def commit_def sync_indeterminate_def clear_selection_def Let_def
      split: option.splits)

lemma settle_sortConfig [simp]: "sortConfig (settle a b w) = sortConfig w"
  by (simp add: settle_def commit_def sync_indeterminate_def clear_selection_def Let_def
      split: option.splits)

lemma settle_selectedRowIds [simp]:
  "selectedRowIds (settle a b w) = (if b then {} else selectedRowIds w)"
  by (simp add: settle_def commit_def sync_indeterminate_def clear_selection_def Let_def
      split: option.splits)

lemma mount_simps [simp]:
  "props (mount p) = p" "sortConfig (mount p) = None" "selectedRowIds (mount p) = {}"
  by (simp_all add: mount_def)

lemma selection_ok_step: "selection_ok w \<Longrightarrow> selection_ok (fst (step w e))"
  by (cases e) (auto simp: selection_ok_def step_def enabled_def handleSelectAll_def
      handleSelectRow_def Let_def)

lemma selection_ok_run: "selection_ok w \<Longrightarrow> selection_ok (run w es)"
  by (induction es arbitrary: w) (simp_all add: selection_ok_step)

lemma selection_ok_mount: "selection_ok (mount p)"
  by (simp add: selection_ok_def)

lemma first_pass_simps:
  "selectedRowIds (first_pass w fresh p) = selectedRowIds w"
  "data (props (first_pass w True p)) = data p"
  by (simp_all add: first_pass_def commit_def)

lemma step_rerender_passes:
  "fst (step w (Rerender fresh p)) =
     (if fresh
      then sync_indeterminate (commit (clear_selection (sync_indeterminate (first_pass w fresh p))))
      else first_pass w fresh p)"
  by (simp add: step_def enabled_def settle_def first_pass_def Let_def)

text \<open>
  C2, as the claim states it: the selection is a subset of the ids of the current data
  in every state, and empty on the render after the data changes. With both of two rows
  selected, the parent passes another array holding rows 3 and 4. The pass that renders
  the new array runs before the effect: it is committed with the selection 1 and 2,
  none of them an id of the data, and with the select-all checkbox checked.
\<close>

theorem stale_selection_in_first_pass:
  "selectedRowIds (run (mount two_row_props) [ToggleAll True]) = {KeyNum 1, KeyNum 2} \<and>
   selectedRowIds (first_pass (run (mount two_row_props) [ToggleAll True]) True other_two_props) =
     {KeyNum 1, KeyNum 2} \<and>
   set (map row_id (data (props
     (first_pass (run (mount two_row_props) [ToggleAll True]) True other_two_props)))) =
     {KeyNum 3, KeyNum 4} \<and>
   \<not> selectedRowIds (first_pass (run (mount two_row_props) [ToggleAll True]) True other_two_props)
       \<subseteq> set (map row_id (data (props
           (first_pass (run (mount two_row_props) [ToggleAll True]) True other_two_props)))) \<and>
   selectAll (first_pass (run (mount two_row_props) [ToggleAll True]) True other_two_props) =
     Some \<lparr> checked = True, indeterminate = False \<rparr>"
  by (simp add: first_pass_def step_def enabled_def handleSelectAll_def two_row_props_def
      other_two_props_def render_state_def person_def mount_def settle_def commit_def
      sync_indeterminate_def clear_selection_def header_checked_def Let_def)

text \<open>
  C2, amended. In every state in which an instance waits for the next event (mounted
  with any props, then any sequence of renders and user events, each cycle taken to the
  end of its effects) the selected ids are ids of rows of the current data. When the
  parent passes another array as \<open>data\<close>, the first pass still has the selection as it
  was, on the new rows; the effect that follows stores an empty set, and the cycle ends
  with the selection empty, whatever rows the new array holds.
\<close>

theorem selection_subset_when_settled:
  "selectedRowIds (run (mount p) es) \<subseteq> set (map row_id (data (props (run (mount p) es)))) \<and>
   selectedRowIds (first_pass w True p') = selectedRowIds w \<and>
   data (props (first_pass w True p')) = data p' \<and>
   fst (step w (Rerender True p')) =
     sync_indeterminate (commit (clear_selection (sync_indeterminate (first_pass w True p')))) \<and>
   selectedRowIds (fst (step w (Rerender True p'))) = {} \<and>
   data (props (fst (step w (Rerender True p')))) = data p'"
proof -
  have "selection_ok (run (mount p) es)"
    using selection_ok_mount by (rule selection_ok_run)
  then have sub: "selectedRowIds (run (mount p) es) \<subseteq>
      set (map row_id (data (props (run (mount p) es))))"
    by (simp add: selection_ok_def)
  have passes: "fst (step w (Rerender True p')) =
      sync_indeterminate (commit (clear_selection (sync_indeterminate (first_pass w True p'))))"
    by (simp add: step_rerender_passes)
  have cleared: "selectedRowIds (fst (step w (Rerender True p'))) = {}"
      "data (props (fst (step w (Rerender True p')))) = data p'"
    by (simp_all add: step_def enabled_def)
  have first: "selectedRowIds (first_pass w True p') = selectedRowIds w"
      "data (props (first_pass w True p')) = data p'"
    by (simp_all add: first_pass_simps)
  from sub passes cleared first show ?thesis by blast
qed

subsection \<open>The sort configuration\<close>

lemma step_keeps_sorted: "sortConfig w \<noteq> None \<Longrightarrow> sortConfig (fst (step w e)) \<noteq> None"
  by (cases e) (auto simp: step_def handleSelectAll_def handleSelectRow_def Let_def)

lemma run_keeps_sorted: "sortConfig w \<noteq> None \<Longrightarrow> sortConfig (run w es) \<noteq> None"
proof (induction es arbitrary: w)
  case Nil
  then show ?case by simp
next
  case (Cons e es)
  from Cons.prems have "sortConfig (fst (step w e)) \<noteq> None" by (rule step_keeps_sorted)
  then have "sortConfig (run (fst (step w e)) es) \<noteq> None" by (rule Cons.IH)
  then show ?case by simp
qed

lemma enabled_age: "enabled (mount two_row_props) (ClickHeader ''age'')"
  by (simp add: enabled_def render_state_def two_row_props_def age_column_def)

text \<open>
  C10. A mounted instance starts unsorted, and once a click on a sortable header has
  been handled the sort configuration is set in every later state, whatever events
  follow: only \<open>requestSort\<close> writes it, and it never writes \<open>null\<close>.
\<close>

theorem sortConfig_never_null_again:
  "sortConfig (mount p) = None \<and>
   (enabled w (ClickHeader k) \<longrightarrow> sortConfig (run (fst (step w (ClickHeader k))) es) \<noteq> None)"
proof (intro conjI impI)
  show "sortConfig (mount p) = None" by simp
next
  assume "enabled w (ClickHeader k)"
  then have "sortConfig (fst (step w (ClickHeader k))) \<noteq> None"
    by (simp add: step_def)
  then show "sortConfig (run (fst (step w (ClickHeader k))) es) \<noteq> None"
    by (rule run_keeps_sorted)
qed

theorem sortConfig_never_null_again_witness:
  "sortConfig (mount two_row_props) = None \<and>
   enabled (mount two_row_props) (ClickHeader ''age'') \<and>
   sortConfig (run (fst (step (mount two_row_props) (ClickHeader ''age'')))
      [ToggleAll True, Rerender True two_row_props,
       Rerender False (two_row_props\<lparr> loading := True \<rparr>)]) \<noteq> None"
  using sortConfig_never_null_again [of two_row_props "mount two_row_props" "''age''"
      "[ToggleAll True, Rerender True two_row_props,
        Rerender False (two_row_props\<lparr> loading := True \<rparr>)]"] enabled_age
  by blast

lemma step_click: "enabled w (ClickHeader k) \<Longrightarrow>
  fst (step w (ClickHeader k)) = settle False False (w\<lparr> sortConfig := Some (requestSort k (sortConfig w)) \<rparr>)"
  by (simp add: step_def)

lemma enabled_click_settle [simp]:
  "enabled (settle a b w) (ClickHeader k) = enabled w (ClickHeader k)"
  by (simp add: enabled_def)

lemma enabled_click_sortConfig [simp]:
  "enabled (w\<lparr> sortConfig := c \<rparr>) (ClickHeader k) = enabled w (ClickHeader k)"
  by (simp add: enabled_def)

lemma run_snoc: "run w (es @ [e]) = fst (step (run w es) e)"
  by (induction es arbitrary: w) simp_all

lemma enabled_click_run:
  "enabled w (ClickHeader k) \<Longrightarrow> enabled (run w (replicate n (ClickHeader k))) (ClickHeader k)"
  by (induction n arbitrary: w) (simp_all add: step_click)

lemma run_replicate_Suc: "run w (replicate (Suc n) e) = fst (step (run w (replicate n e)) e)"
proof -
  have "replicate (Suc n) e = replicate n e @ [e]"
    by (simp add: replicate_append_same)
  then show ?thesis by (simp only: run_snoc)
qed

lemma clicks_cycle:
  assumes "enabled w (ClickHeader k)" and "\<forall>c. sortConfig w = Some c \<longrightarrow> key c \<noteq> k"
  shows "sortConfig (run w (replicate (Suc n) (ClickHeader k))) =
           Some \<lparr> key = k, direction = (if even n then ascending else descending) \<rparr>"
proof (induction n)
  case 0
  from assms show ?case by (auto simp: step_click requestSort_def split: option.splits)
next
  case (Suc n)
  have "sortConfig (run w (replicate (Suc (Suc n)) (ClickHeader k))) =
        sortConfig (fst (step (run w (replicate (Suc n) (ClickHeader k))) (ClickHeader k)))"
    by (simp only: run_replicate_Suc)
  also have "\<dots> = Some (requestSort k (sortConfig (run w (replicate (Suc n) (ClickHeader k)))))"
    using enabled_click_run [OF assms(1), of "Suc n"] by (simp only: step_click settle_sortConfig) simp
  also have "\<dots> = Some \<lparr> key = k, direction = (if even (Suc n) then ascending else descending) \<rparr>"
    by (simp only: Suc.IH) (simp add: requestSort_def)
  finally show ?case .
qed

lemma at_most_one_key: "isSorted v c \<Longrightarrow> isSorted v c' \<Longrightarrow> dataIndex c = dataIndex c'"
  by (auto simp: isSorted_def split: option.splits)

lemma filter_distinct_key:
  "distinct (map f xs) \<Longrightarrow> length (filter (\<lambda>x. f x = k) xs) \<le> Suc 0"
  by (induction xs) (auto simp: filter_empty_conv image_iff)

lemma at_most_one_column:
  "distinct (map dataIndex cols) \<Longrightarrow> length (filter (isSorted v) cols) \<le> Suc 0"
proof (cases "sortConfig v")
  case None
  then show ?thesis by (simp add: isSorted_def)
next
  case (Some sc)
  assume "distinct (map dataIndex cols)"
  then have "length (filter (\<lambda>c. dataIndex c = key sc) cols) \<le> Suc 0"
    by (rule filter_distinct_key)
  moreover have "isSorted v = (\<lambda>c. dataIndex c = key sc)"
    using Some by (auto simp: isSorted_def)
  ultimately show ?thesis by simp
qed




subsection \<open>Selection\<close>

text \<open>
  C6. In a reachable state, a change event of a rendered row checkbox or of the
  select-all checkbox calls the supplied \<open>onRowSelect\<close> once, with the rows of \<open>data\<close>,
  in the order of \<open>data\<close>, whose ids are in the new selection; the ids of these rows
  are exactly the new selection.
\<close>

theorem onRowSelect_called_with_selected_rows:
  assumes "w = run (mount p) es" and "onRowSelect (props w)"
    and "e = ToggleAll chk \<or> e = ToggleRow i chk" and "enabled w e"
  shows "snd (step w e) =
           [filter (\<lambda>row. row_id row \<in> selectedRowIds (fst (step w e))) (data (props w))] \<and>
         set (map row_id (filter (\<lambda>row. row_id row \<in> selectedRowIds (fst (step w e)))
                (data (props w)))) = selectedRowIds (fst (step w e))"
proof -
  have ok: "selection_ok w"
    using assms(1) selection_ok_run [OF selection_ok_mount] by simp
  from assms(3) show ?thesis
  proof
    assume "e = ToggleAll chk"
    with assms(2,4) show ?thesis
      by (auto simp: step_def handleSelectAll_def Let_def)
  next
    assume "e = ToggleRow i chk"
    with assms(2,4) ok show ?thesis
      by (auto simp: step_def handleSelectRow_def Let_def selection_ok_def enabled_def)
  qed
qed

theorem onRowSelect_called_with_selected_rows_witness:
  "onRowSelect (props (run (mount two_row_props) [ToggleRow (KeyNum 2) True])) \<and>
   enabled (run (mount two_row_props) [ToggleRow (KeyNum 2) True]) (ToggleRow (KeyNum 1) True) \<and>
   snd (step (run (mount two_row_props) [ToggleRow (KeyNum 2) True]) (ToggleRow (KeyNum 1) True)) =
     [[person 1 32, person 2 28]] \<and>
   selectedRowIds (fst (step (run (mount two_row_props) [ToggleRow (KeyNum 2) True])
      (ToggleRow (KeyNum 1) True))) = {KeyNum 1, KeyNum 2}"
proof -
  let ?w = "run (mount two_row_props) [ToggleRow (KeyNum 2) True]"
  have a: "onRowSelect (props ?w)"
    by (simp add: step_def enabled_def handleSelectRow_def two_row_props_def render_state_def
        person_def)
  have b: "enabled ?w (ToggleRow (KeyNum 1) True)"
    by (simp add: step_def enabled_def handleSelectRow_def two_row_props_def render_state_def
        person_def)
  have c: "selectedRowIds (fst (step ?w (ToggleRow (KeyNum 1) True))) = {KeyNum 1, KeyNum 2}"
    by (simp add: step_def enabled_def handleSelectRow_def two_row_props_def render_state_def
        person_def)
  have d: "data (props ?w) = [person 1 32, person 2 28]"
    by (simp add: step_def enabled_def handleSelectRow_def two_row_props_def render_state_def
        person_def)
  have e: "ToggleRow (KeyNum 1) True = ToggleAll True \<or>
      ToggleRow (KeyNum 1) True = ToggleRow (KeyNum 1) True"
    by simp
  from onRowSelect_called_with_selected_rows [OF refl a e b]
  have "snd (step ?w (ToggleRow (KeyNum 1) True)) = [[person 1 32, person 2 28]]"
    by (simp only: c d) (simp add: person_def)
  with a b c show ?thesis by blast
qed

text \<open>
  Right after a change event of a checkbox the select-all node shows what lines 46, 47
  and 148 compute from the new selection: the effect runs, since the set is a new object.
\<close>

lemma select_all_in_sync_after_toggle:
  assumes "enabled w e" and "e = ToggleAll chk \<or> e = ToggleRow i chk"
  shows "selectAll (fst (step w e)) =
           Some \<lparr> checked = header_checked (fst (step w e)),
                  indeterminate =
                    (0 < card (selectedRowIds (fst (step w e))) \<and>
                     card (selectedRowIds (fst (step w e))) < length (data (props w))) \<rparr>"
  using assms
  by (auto simp: step_def enabled_def settle_def commit_def sync_indeterminate_def
      handleSelectAll_def handleSelectRow_def header_checked_def Let_def)

text \<open>
  C4. The select-all checkbox is to be indeterminate iff the selection is neither empty
  nor complete. After one of two rows is selected it is. When the table is then
  rendered with \<open>loading\<close> and rendered again without, on the same \<open>data\<close>, the
  checkbox is a new node and the effect does not run, its dependencies being unchanged:
  one of two rows is selected and the checkbox is not indeterminate.
\<close>

theorem select_all_not_indeterminate_after_remount:
  "selectAll (run (mount two_row_props) [ToggleRow (KeyNum 1) True]) =
     Some \<lparr> checked = False, indeterminate = True \<rparr> \<and>
   selectAll (run (mount two_row_props)
      [ToggleRow (KeyNum 1) True,
       Rerender False (two_row_props\<lparr> loading := True \<rparr>),
       Rerender False two_row_props]) =
     Some \<lparr> checked = False, indeterminate = False \<rparr> \<and>
   selectedRowIds (run (mount two_row_props)
      [ToggleRow (KeyNum 1) True,
       Rerender False (two_row_props\<lparr> loading := True \<rparr>),
       Rerender False two_row_props]) = {KeyNum 1} \<and>
   length (data (props (run (mount two_row_props)
      [ToggleRow (KeyNum 1) True,
       Rerender False (two_row_props\<lparr> loading := True \<rparr>),
       Rerender False two_row_props]))) = 2"
  by (simp add: step_def enabled_def handleSelectRow_def two_row_props_def render_state_def
        person_def mount_def settle_def commit_def sync_indeterminate_def clear_selection_def
        header_checked_def Let_def)

subsection \<open>Sorting\<close>

lemma consistent_flip:
  "consistent_comparator S cmp \<Longrightarrow> a \<in> S \<Longrightarrow> b \<in> S \<Longrightarrow> (cmp a b < 0) = (0 < cmp b a)"
  unfolding consistent_comparator_def by blast

lemma consistent_trans:
  "consistent_comparator S cmp \<Longrightarrow> a \<in> S \<Longrightarrow> b \<in> S \<Longrightarrow> c \<in> S \<Longrightarrow>
     cmp a b \<le> 0 \<Longrightarrow> cmp b c \<le> 0 \<Longrightarrow> cmp a c \<le> 0"
  unfolding consistent_comparator_def by blast

lemma consistent_total:
  assumes "consistent_comparator S cmp" and "a \<in> S" and "b \<in> S" and "\<not> cmp a b < 0"
  shows "cmp b a \<le> 0"
  using consistent_flip [OF assms(1,2,3)] assms(4) by simp

lemma consistent_subset:
  "consistent_comparator S cmp \<Longrightarrow> T \<subseteq> S \<Longrightarrow> consistent_comparator T cmp"
  unfolding consistent_comparator_def by blast

text \<open>A chain of neighbours in order is sorted, the order being transitive.\<close>

lemma chain_sorted:
  assumes "consistent_comparator S cmp" and "set xs \<subseteq> S"
    and "successively (\<lambda>a b. cmp a b \<le> 0) xs"
  shows "sorted_wrt (\<lambda>a b. cmp a b \<le> 0) xs"
  using assms(2,3)
proof (induction xs rule: induct_list012)
  case 1
  then show ?case by simp
next
  case (2 x)
  then show ?case by simp
next
  case (3 x y zs)
  then have s: "sorted_wrt (\<lambda>a b. cmp a b \<le> 0) (y # zs)" and xy: "cmp x y \<le> 0"
    by simp_all
  have "cmp x z \<le> 0" if "z \<in> set zs" for z
  proof -
    have "cmp y z \<le> 0" using s that by simp
    with xy show ?thesis
      using consistent_trans [OF assms(1), of x y z] "3.prems"(1) that by auto
  qed
  with s xy show ?case by auto
qed

lemma run_tail_le: "run_tail cmp d prev rest \<le> length rest"
  by (induction rest arbitrary: prev) simp_all

lemma run_tail_chain:
  "successively (\<lambda>a b. if d then cmp b a < 0 else \<not> cmp b a < 0)
     (prev # take (run_tail cmp d prev rest) rest)"
  by (induction rest arbitrary: prev) (auto simp: not_le)

lemma successively_mono_on:
  "successively P xs \<Longrightarrow> (\<And>a b. a \<in> set xs \<Longrightarrow> b \<in> set xs \<Longrightarrow> P a b \<Longrightarrow> Q a b) \<Longrightarrow>
     successively Q xs"
  by (induction xs rule: induct_list012) auto

lemma count_and_make_run_two:
  "count_and_make_run cmp (x0 # x1 # rest) =
     (2 + run_tail cmp (cmp x1 x0 < 0) x1 rest,
      if cmp x1 x0 < 0
      then rev (take (2 + run_tail cmp (cmp x1 x0 < 0) x1 rest) (x0 # x1 # rest)) @
           drop (2 + run_tail cmp (cmp x1 x0 < 0) x1 rest) (x0 # x1 # rest)
      else x0 # x1 # rest)"
  by (simp add: count_and_make_run_def Let_def)

lemma list_cases3:
  obtains "xs = []" | x where "xs = [x]" | x0 x1 rest where "xs = x0 # x1 # rest"
  by (metis neq_Nil_conv)

lemma count_and_make_run_mset: "mset (snd (count_and_make_run cmp xs)) = mset xs"
proof (cases xs rule: list_cases3)
  case (3 x0 x1 rest)
  have "mset (rev (take n xs) @ drop n xs) = mset xs" for n
    by (metis append_take_drop_id mset_append mset_rev)
  then show ?thesis
    unfolding 3 count_and_make_run_two by (simp only: snd_conv split: if_splits) simp
qed (simp_all add: count_and_make_run_def)

lemma count_and_make_run_le: "fst (count_and_make_run cmp xs) \<le> length xs"
  by (auto simp: count_and_make_run_def Let_def run_tail_le split: list.splits)

lemma count_and_make_run_length: "length (snd (count_and_make_run cmp xs)) = length xs"
  by (metis count_and_make_run_mset size_mset)

lemma count_and_make_run_sorted:
  assumes "consistent_comparator S cmp" and "set xs \<subseteq> S"
  shows "sorted_wrt (\<lambda>a b. cmp a b \<le> 0)
           (take (fst (count_and_make_run cmp xs)) (snd (count_and_make_run cmp xs)))"
proof (cases xs rule: list_cases3)
  case 1
  then show ?thesis by (simp add: count_and_make_run_def)
next
  case (2 x)
  then show ?thesis by (simp add: count_and_make_run_def)
next
  case Two: (3 x0 x1 rest)
  define d where "d = (cmp x1 x0 < 0)"
  define n where "n = 2 + run_tail cmp d x1 rest"
  define run where "run = x0 # x1 # take (run_tail cmp d x1 rest) rest"
  have run_take: "take n xs = run"
    by (simp add: Two n_def run_def)
  have sub: "set run \<subseteq> S"
    using assms(2) set_take_subset [of n xs] unfolding run_take [symmetric] by blast
  have chain: "successively (\<lambda>a b. if d then cmp b a < 0 else \<not> cmp b a < 0) run"
    unfolding run_def using run_tail_chain [of d cmp x1 rest] by (simp add: d_def)
  have res: "count_and_make_run cmp xs =
      (n, if d then rev run @ drop n xs else xs)"
    unfolding Two count_and_make_run_two d_def n_def run_def by simp
  have nle: "n \<le> length xs"
    by (simp add: Two n_def run_tail_le)
  show ?thesis
  proof (cases d)
    case False
    have "successively (\<lambda>a b. cmp a b \<le> 0) run"
    proof (rule successively_mono_on [OF chain])
      fix a b assume "a \<in> set run" "b \<in> set run"
        and "if d then cmp b a < 0 else \<not> cmp b a < 0"
      with False sub show "cmp a b \<le> 0"
        using consistent_total [OF assms(1), of b a] by auto
    qed
    then have "sorted_wrt (\<lambda>a b. cmp a b \<le> 0) run"
      by (rule chain_sorted [OF assms(1) sub])
    with False show ?thesis by (simp add: res run_take)
  next
    case True
    have "successively (\<lambda>a b. cmp b a < 0) run"
      using chain True by simp
    then have "successively (\<lambda>a b. cmp a b < 0) (rev run)"
      by (simp add: successively_rev)
    then have "successively (\<lambda>a b. cmp a b \<le> 0) (rev run)"
      by (rule successively_mono_on) simp
    moreover have "set (rev run) \<subseteq> S" using sub by simp
    ultimately have "sorted_wrt (\<lambda>a b. cmp a b \<le> 0) (rev run)"
      using chain_sorted [OF assms(1)] by blast
    moreover have "length (rev run) = n"
      using run_take nle by (metis length_rev length_take min.absorb2)
    ultimately show ?thesis using True by (simp add: res)
  qed
qed

lemma binary_search_place:
  "consistent_comparator S cmp \<Longrightarrow> set xs \<subseteq> S \<Longrightarrow> pivot \<in> S \<Longrightarrow>
   sorted_wrt (\<lambda>a b. cmp a b \<le> 0) xs \<Longrightarrow>
   lo \<le> hi \<Longrightarrow> hi \<le> length xs \<Longrightarrow>
   (\<forall>i<lo. cmp (xs ! i) pivot \<le> 0) \<Longrightarrow>
   (\<forall>i. hi \<le> i \<and> i < length xs \<longrightarrow> cmp pivot (xs ! i) \<le> 0) \<Longrightarrow>
   lo \<le> binary_search cmp pivot xs lo hi \<and> binary_search cmp pivot xs lo hi \<le> hi \<and>
   (\<forall>i<binary_search cmp pivot xs lo hi. cmp (xs ! i) pivot \<le> 0) \<and>
   (\<forall>i. binary_search cmp pivot xs lo hi \<le> i \<and> i < length xs \<longrightarrow> cmp pivot (xs ! i) \<le> 0)"
proof (induction cmp pivot xs lo hi rule: binary_search.induct)
  case (1 cmp pivot xs lo hi)
  note con = "1.prems"(1) and sub = "1.prems"(2) and piv = "1.prems"(3) and srt = "1.prems"(4)
  show ?case
  proof (cases "lo < hi")
    case False
    then have "binary_search cmp pivot xs lo hi = lo"
      by (subst binary_search.simps) simp
    moreover from False "1.prems"(5) have "lo = hi" by simp
    ultimately show ?thesis using "1.prems"(7,8) by simp
  next
    case True
    define mid where "mid = lo + (hi - lo) div 2"
    have mid: "lo \<le> mid" "mid < hi" "mid < length xs"
      using True "1.prems"(6) by (auto simp: mid_def)
    have inS: "xs ! i \<in> S" if "i < length xs" for i
      using sub that nth_mem by blast
    show ?thesis
    proof (cases "cmp pivot (xs ! mid) < 0")
      case below: True
      have eq: "binary_search cmp pivot xs lo hi = binary_search cmp pivot xs lo mid"
        using True below by (simp add: binary_search.simps [of cmp pivot xs lo hi] mid_def Let_def)
      have high: "\<forall>i. mid \<le> i \<and> i < length xs \<longrightarrow> cmp pivot (xs ! i) \<le> 0"
      proof (intro allI impI)
        fix i assume i: "mid \<le> i \<and> i < length xs"
        show "cmp pivot (xs ! i) \<le> 0"
        proof (cases "i = mid")
          case True
          with below show ?thesis by simp
        next
          case False
          with i have "cmp (xs ! mid) (xs ! i) \<le> 0"
            using srt by (simp add: sorted_wrt_iff_nth_less)
          with below show ?thesis
            using consistent_trans [OF con piv inS [of mid] inS [of i]] i mid by simp
        qed
      qed
      have "lo \<le> binary_search cmp pivot xs lo mid \<and> binary_search cmp pivot xs lo mid \<le> mid \<and>
         (\<forall>i<binary_search cmp pivot xs lo mid. cmp (xs ! i) pivot \<le> 0) \<and>
         (\<forall>i. binary_search cmp pivot xs lo mid \<le> i \<and> i < length xs \<longrightarrow> cmp pivot (xs ! i) \<le> 0)"
        using "1.IH"(1) [OF True mid_def below con sub piv srt mid(1) _ "1.prems"(7) high] mid
        by simp
      with mid show ?thesis unfolding eq by auto
    next
      case above: False
      have eq: "binary_search cmp pivot xs lo hi = binary_search cmp pivot xs (mid + 1) hi"
        using True above by (simp add: binary_search.simps [of cmp pivot xs lo hi] mid_def Let_def)
      have midp: "cmp (xs ! mid) pivot \<le> 0"
        using consistent_total [OF con piv inS [OF mid(3)] above] .
      have low: "\<forall>i<mid + 1. cmp (xs ! i) pivot \<le> 0"
      proof (intro allI impI)
        fix i assume i: "i < mid + 1"
        show "cmp (xs ! i) pivot \<le> 0"
        proof (cases "i = mid")
          case True
          with midp show ?thesis by simp
        next
          case False
          with i mid have "cmp (xs ! i) (xs ! mid) \<le> 0"
            using srt by (simp add: sorted_wrt_iff_nth_less)
          with midp show ?thesis
            using consistent_trans [OF con inS [of i] inS [of mid] piv] i mid by simp
        qed
      qed
      have "mid + 1 \<le> binary_search cmp pivot xs (mid + 1) hi \<and>
         binary_search cmp pivot xs (mid + 1) hi \<le> hi \<and>
         (\<forall>i<binary_search cmp pivot xs (mid + 1) hi. cmp (xs ! i) pivot \<le> 0) \<and>
         (\<forall>i. binary_search cmp pivot xs (mid + 1) hi \<le> i \<and> i < length xs \<longrightarrow>
              cmp pivot (xs ! i) \<le> 0)"
        using "1.IH"(2) [OF True mid_def above con sub piv srt _ "1.prems"(6) low "1.prems"(8)] mid
        by simp
      with mid show ?thesis unfolding eq by auto
    qed
  qed
qed

lemma insert_at_sorted:
  assumes srt: "sorted_wrt (\<lambda>a b. cmp a b \<le> 0) xs" and "r \<le> length xs"
    and low: "\<forall>i<r. cmp (xs ! i) pivot \<le> 0"
    and high: "\<forall>i. r \<le> i \<and> i < length xs \<longrightarrow> cmp pivot (xs ! i) \<le> 0"
  shows "sorted_wrt (\<lambda>a b. cmp a b \<le> 0) (take r xs @ pivot # drop r xs)"
proof -
  have "sorted_wrt (\<lambda>a b. cmp a b \<le> 0) (take r xs @ drop r xs)"
    using srt by simp
  then have split: "sorted_wrt (\<lambda>a b. cmp a b \<le> 0) (take r xs)"
      "sorted_wrt (\<lambda>a b. cmp a b \<le> 0) (drop r xs)"
      "\<forall>x\<in>set (take r xs). \<forall>y\<in>set (drop r xs). cmp x y \<le> 0"
    unfolding sorted_wrt_append by blast+
  have before: "cmp x pivot \<le> 0" if "x \<in> set (take r xs)" for x
  proof -
    from that obtain i where "i < length (take r xs)" "x = take r xs ! i"
      by (auto simp: in_set_conv_nth)
    then show ?thesis using low by simp
  qed
  have after: "cmp pivot y \<le> 0" if "y \<in> set (drop r xs)" for y
  proof -
    from that obtain j where j: "j < length (drop r xs)" "y = drop r xs ! j"
      by (auto simp: in_set_conv_nth)
    then have "y = xs ! (r + j)" using assms(2) by simp
    moreover have "r \<le> r + j \<and> r + j < length xs" using j by simp
    ultimately show ?thesis using high by blast
  qed
  from split before after show ?thesis
    by (auto simp: sorted_wrt_append)
qed

lemma binary_insertion_mset:
  "mset (binary_insertion cmp pre rest) = mset pre + mset rest"
proof (induction rest arbitrary: pre)
  case Nil
  then show ?case by simp
next
  case (Cons pivot rest)
  have "mset (take r pre @ pivot # drop r pre) = add_mset pivot (mset pre)" for r
    by (metis append_take_drop_id mset.simps(2) mset_append union_mset_add_mset_right)
  then show ?case by (simp add: Cons.IH Let_def del: mset_append)
qed

lemma binary_insertion_sorted:
  assumes con: "consistent_comparator S cmp"
  shows "set pre \<subseteq> S \<Longrightarrow> set rest \<subseteq> S \<Longrightarrow> sorted_wrt (\<lambda>a b. cmp a b \<le> 0) pre \<Longrightarrow>
         sorted_wrt (\<lambda>a b. cmp a b \<le> 0) (binary_insertion cmp pre rest)"
proof (induction rest arbitrary: pre)
  case Nil
  then show ?case by simp
next
  case (Cons pivot rest)
  define r where "r = binary_search cmp pivot pre 0 (length pre)"
  have piv: "pivot \<in> S" using Cons.prems(2) by simp
  have place: "0 \<le> r \<and> r \<le> length pre \<and> (\<forall>i<r. cmp (pre ! i) pivot \<le> 0) \<and>
      (\<forall>i. r \<le> i \<and> i < length pre \<longrightarrow> cmp pivot (pre ! i) \<le> 0)"
    unfolding r_def
    by (rule binary_search_place [OF con Cons.prems(1) piv Cons.prems(3)]) simp_all
  then have srt: "sorted_wrt (\<lambda>a b. cmp a b \<le> 0) (take r pre @ pivot # drop r pre)"
    using insert_at_sorted [OF Cons.prems(3), of r pivot] by blast
  have sub: "set (take r pre @ pivot # drop r pre) \<subseteq> S"
    using Cons.prems(1) piv set_take_subset [of r pre] set_drop_subset [of r pre] by auto
  have "set rest \<subseteq> S" using Cons.prems(2) by simp
  from Cons.IH [OF sub this srt] show ?case by (simp add: Let_def r_def)
qed

text \<open>V8 meets what ECMAScript asks, at least as it sorts short arrays.\<close>

lemma v8_sort_conforming: "conforming_sort v8_sort"
  unfolding conforming_sort_def
proof (intro allI conjI impI)
  fix cmp :: "'a \<Rightarrow> 'a \<Rightarrow> int" and xs
  obtain n ys where c: "count_and_make_run cmp xs = (n, ys)" by force
  have ms: "mset ys = mset xs" using count_and_make_run_mset [of cmp xs] c by simp
  have v: "v8_sort cmp xs = binary_insertion cmp (take n ys) (drop n ys)"
    by (simp add: v8_sort_def c)
  show "mset (v8_sort cmp xs) = mset xs"
    unfolding v binary_insertion_mset using ms
    by (metis append_take_drop_id mset_append)
  assume con: "consistent_comparator (set xs) cmp"
  have sets: "set ys = set xs" using ms by (metis set_mset_mset)
  have "sorted_wrt (\<lambda>a b. cmp a b \<le> 0) (take n ys)"
    using count_and_make_run_sorted [OF con subset_refl] c by simp
  moreover have "set (take n ys) \<subseteq> set xs" "set (drop n ys) \<subseteq> set xs"
    using sets set_take_subset [of n ys] set_drop_subset [of n ys] by auto
  ultimately show "sorted_wrt (\<lambda>a b. cmp a b \<le> 0) (v8_sort cmp xs)"
    unfolding v using binary_insertion_sorted [OF con] by blast
qed

lemma directed_multiplier:
  "(if d = ascending then cmp a b else - cmp a b) = cmp a b * multiplier d"
  by (simp add: multiplier_def)

lemma consistent_directed:
  assumes "consistent_comparator S cmp"
  shows "consistent_comparator S (\<lambda>a b. cmp a b * multiplier d)"
proof (cases d)
  case ascending
  with assms show ?thesis by (simp add: multiplier_def)
next
  case descending
  have flip: "(cmp a b < 0) = (0 < cmp b a)" if "a \<in> S" "b \<in> S" for a b
    using consistent_flip [OF assms that] .
  have ge: "cmp a c \<ge> 0" if "a \<in> S" "b \<in> S" "c \<in> S" "cmp a b \<ge> 0" "cmp b c \<ge> 0" for a b c
  proof -
    have "cmp c b \<le> 0" using flip [of b c] that by auto
    moreover have "cmp b a \<le> 0" using flip [of a b] that by auto
    ultimately have "cmp c a \<le> 0" using consistent_trans [OF assms, of c b a] that by blast
    then show ?thesis using flip [of a c] that by auto
  qed
  have m: "multiplier d = - 1"
    using descending by (simp add: multiplier_def)
  show ?thesis
    unfolding consistent_comparator_def m
  proof (intro conjI ballI impI)
    fix a b assume "a \<in> S" "b \<in> S"
    then show "(cmp a b * - 1 < 0) = (0 < cmp b a * - 1)"
      using flip [of b a] by simp
  next
    fix a b c
    assume "a \<in> S" "b \<in> S" "c \<in> S" and "cmp a b * - 1 \<le> 0 \<and> cmp b c * - 1 \<le> 0"
    then show "cmp a c * - 1 \<le> 0"
      using ge [of a b c] by simp
  qed
qed

lemma compare_decorated_directed:
  "compare_decorated lt cols sc a b =
     (if primary_compare lt cols (key sc) (snd a) (snd b) * multiplier (direction sc) \<noteq> 0
      then primary_compare lt cols (key sc) (snd a) (snd b) * multiplier (direction sc)
      else int (fst a) - int (fst b))"
  by (simp add: compare_decorated_def Let_def multiplier_def)

lemma enumerate_snd_in: "x \<in> set (enumerate n rows) \<Longrightarrow> snd x \<in> set rows"
proof -
  assume "x \<in> set (enumerate n rows)"
  then have "snd x \<in> set (map snd (enumerate n rows))" by (simp del: map_snd_enumerate)
  then show ?thesis by simp
qed

lemma enumerate_fst_inj:
  "x \<in> set (enumerate n rows) \<Longrightarrow> y \<in> set (enumerate n rows) \<Longrightarrow> fst x = fst y \<Longrightarrow> x = y"
  by (auto simp: in_set_enumerate_eq prod_eq_iff)

text \<open>With a consistent primary comparison the comparator of the paired rows is consistent.\<close>

lemma consistent_compare_decorated:
  assumes "consistent_comparator (set rows) (primary_compare lt cols (key sc))"
  shows "consistent_comparator (set (enumerate 0 rows)) (compare_decorated lt cols sc)"
proof -
  define q where "q = (\<lambda>a b. primary_compare lt cols (key sc) a b * multiplier (direction sc))"
  have con: "consistent_comparator (set rows) q"
    unfolding q_def using assms by (rule consistent_directed)
  have c: "compare_decorated lt cols sc a b =
      (if q (snd a) (snd b) \<noteq> 0 then q (snd a) (snd b) else int (fst a) - int (fst b))" for a b
    unfolding q_def by (rule compare_decorated_directed)
  let ?D = "set (enumerate 0 rows)"
  have flip: "(q (snd a) (snd b) < 0) = (0 < q (snd b) (snd a))" if "a \<in> ?D" "b \<in> ?D" for a b
    using consistent_flip [OF con] that by (simp add: enumerate_snd_in)
  have tr: "q (snd a) (snd d) \<le> 0"
    if "a \<in> ?D" "b \<in> ?D" "d \<in> ?D" "q (snd a) (snd b) \<le> 0" "q (snd b) (snd d) \<le> 0" for a b d
    using consistent_trans [OF con, of "snd a" "snd b" "snd d"] that by (simp add: enumerate_snd_in)
  have sign: "(compare_decorated lt cols sc a b < 0) = (0 < compare_decorated lt cols sc b a)"
    if "a \<in> ?D" "b \<in> ?D" for a b
    using that flip [of a b] flip [of b a] by (auto simp: c split: if_splits)
  have trans: "compare_decorated lt cols sc a d \<le> 0"
    if "a \<in> ?D" "b \<in> ?D" "d \<in> ?D"
      "compare_decorated lt cols sc a b \<le> 0" "compare_decorated lt cols sc b d \<le> 0" for a b d
  proof -
    from that(4) have ab: "q (snd a) (snd b) \<le> 0" by (auto simp: c split: if_splits)
    from that(5) have bd: "q (snd b) (snd d) \<le> 0" by (auto simp: c split: if_splits)
    from tr [OF that(1,2,3) ab bd] have ad: "q (snd a) (snd d) \<le> 0" .
    show ?thesis
    proof (cases "q (snd a) (snd d) = 0")
      case False
      with ad show ?thesis by (simp add: c)
    next
      case True
      then have da: "q (snd d) (snd a) \<le> 0"
        using flip [of a d] that by auto
      have "q (snd a) (snd b) = 0"
      proof (rule ccontr)
        assume "q (snd a) (snd b) \<noteq> 0"
        with ab have "0 < q (snd b) (snd a)" using flip [of a b] that by auto
        moreover have "q (snd b) (snd a) \<le> 0" using tr [OF that(2,3,1) bd da] .
        ultimately show False by simp
      qed
      moreover have "q (snd b) (snd d) = 0"
      proof (rule ccontr)
        assume "q (snd b) (snd d) \<noteq> 0"
        with bd have "0 < q (snd d) (snd b)" using flip [of b d] that by auto
        moreover have "q (snd d) (snd b) \<le> 0" using tr [OF that(3,1,2) da ab] .
        ultimately show False by simp
      qed
      ultimately show ?thesis using that(4,5) True by (simp add: c)
    qed
  qed
  show ?thesis
    unfolding consistent_comparator_def
  proof (intro conjI ballI impI)
    fix a b assume "a \<in> ?D" "b \<in> ?D"
    then show "(compare_decorated lt cols sc a b < 0) = (0 < compare_decorated lt cols sc b a)"
      by (rule sign)
  next
    fix a b d
    assume "a \<in> ?D" "b \<in> ?D" "d \<in> ?D"
      and "compare_decorated lt cols sc a b \<le> 0 \<and> compare_decorated lt cols sc b d \<le> 0"
    then show "compare_decorated lt cols sc a d \<le> 0" using trans by blast
  qed
qed

lemma sorted_wrt_distinct_mono:
  "distinct xs \<Longrightarrow> sorted_wrt P xs \<Longrightarrow>
   (\<And>x y. x \<in> set xs \<Longrightarrow> y \<in> set xs \<Longrightarrow> x \<noteq> y \<Longrightarrow> P x y \<Longrightarrow> Q x y) \<Longrightarrow> sorted_wrt Q xs"
  by (induction xs) auto

text \<open>
  What an engine that conforms returns for the paired rows is in the order of the
  primary comparison and the direction, ties in the order of the original index.
\<close>

lemma sorted_decorated_stable:
  assumes conf: "conforming_sort array_sort"
    and con: "consistent_comparator (set rows) (primary_compare lt cols (key sc))"
  shows "stable_sorted_by (primary_compare lt cols (key sc)) (direction sc) rows
           (sorted_decorated array_sort lt cols sc rows)"
proof -
  let ?ds = "sorted_decorated array_sort lt cols sc rows"
  let ?q = "\<lambda>a b. if direction sc = ascending then primary_compare lt cols (key sc) (snd a) (snd b)
                   else - primary_compare lt cols (key sc) (snd a) (snd b)"
  have perm: "mset ?ds = mset (enumerate 0 rows)"
    using conf unfolding conforming_sort_def sorted_decorated_def by blast
  have "consistent_comparator (set (enumerate 0 rows)) (compare_decorated lt cols sc)"
    using con by (rule consistent_compare_decorated)
  then have srt: "sorted_wrt (\<lambda>a b. compare_decorated lt cols sc a b \<le> 0) ?ds"
    using conf unfolding conforming_sort_def sorted_decorated_def by blast
  have dist: "distinct ?ds"
    using perm by (metis distinct_enumerate mset_eq_imp_distinct_iff)
  have sets: "set ?ds = set (enumerate 0 rows)"
    using perm by (metis set_mset_mset)
  have "sorted_wrt (\<lambda>a b. let c = ?q a b in c < 0 \<or> (c = 0 \<and> fst a < fst b)) ?ds"
  proof (rule sorted_wrt_distinct_mono [OF dist srt])
    fix x y
    assume x: "x \<in> set ?ds" and y: "y \<in> set ?ds" and ne: "x \<noteq> y"
      and le: "compare_decorated lt cols sc x y \<le> 0"
    have "fst x \<noteq> fst y"
      using x y ne sets enumerate_fst_inj by blast
    then have idx: "int (fst x) - int (fst y) \<noteq> 0" by simp
    define c where "c = primary_compare lt cols (key sc) (snd x) (snd y) * multiplier (direction sc)"
    have "(if c \<noteq> 0 then c else int (fst x) - int (fst y)) \<le> 0"
      using le unfolding compare_decorated_directed c_def .
    with idx have "c < 0 \<or> (c = 0 \<and> fst x < fst y)"
      by (cases "c = 0") auto
    moreover have "?q x y = c"
      unfolding c_def by (rule directed_multiplier)
    ultimately show "let c = ?q x y in c < 0 \<or> (c = 0 \<and> fst x < fst y)"
      by (simp add: Let_def)
  qed
  with perm show ?thesis unfolding stable_sorted_by_def by simp
qed

lemma sorted_wrt_asym_unique:
  assumes "\<And>x y. x \<in> set xs \<Longrightarrow> y \<in> set xs \<Longrightarrow> R x y \<Longrightarrow> \<not> R y x"
    and "mset xs = mset ys" and "sorted_wrt R xs" and "sorted_wrt R ys"
  shows "xs = ys"
  using assms
proof (induction xs arbitrary: ys)
  case Nil
  then show ?case by simp
next
  case (Cons x xs)
  from Cons.prems(2) obtain y ys' where ys: "ys = y # ys'"
    by (cases ys) auto
  have sets: "set (x # xs) = set (y # ys')"
    using Cons.prems(2) ys by (metis set_mset_mset)
  have xy: "R y x \<or> x = y"
    using sets Cons.prems(4) ys by auto
  have yx: "R x y \<or> x = y"
    using sets Cons.prems(3) by auto
  have "x \<in> set (x # xs)" "y \<in> set (x # xs)" using sets by auto
  with xy yx Cons.prems(1) [of x y] have "x = y"
    by blast
  moreover have "xs = ys'"
  proof (rule Cons.IH)
    show "\<And>a b. a \<in> set xs \<Longrightarrow> b \<in> set xs \<Longrightarrow> R a b \<Longrightarrow> \<not> R b a"
      using Cons.prems(1) by simp
    show "mset xs = mset ys'" using Cons.prems(2) ys \<open>x = y\<close> by simp
    show "sorted_wrt R xs" using Cons.prems(3) by simp
    show "sorted_wrt R ys'" using Cons.prems(4) ys by simp
  qed
  ultimately show ?case using ys by simp
qed

lemma stable_sorted_by_unique:
  assumes con: "consistent_comparator (set rows) cmp"
    and a: "stable_sorted_by cmp d rows ds" and b: "stable_sorted_by cmp d rows ds'"
  shows "ds = ds'"
proof -
  let ?R = "\<lambda>a b. let c = (if d = ascending then cmp (snd a) (snd b) else - cmp (snd a) (snd b))
                   in c < 0 \<or> (c = 0 \<and> fst a < fst b)"
  have sets: "set ds = set (enumerate 0 rows)"
    using a unfolding stable_sorted_by_def by (metis set_mset_mset)
  have asym: "\<not> ?R y x" if "x \<in> set ds" "y \<in> set ds" "?R x y" for x y
  proof -
    have "snd x \<in> set rows" "snd y \<in> set rows"
      using that sets enumerate_snd_in by blast+
    then have "(cmp (snd x) (snd y) < 0) = (0 < cmp (snd y) (snd x))"
      "(cmp (snd y) (snd x) < 0) = (0 < cmp (snd x) (snd y))"
      using consistent_flip [OF con] by blast+
    with that(3) show ?thesis by (auto simp: Let_def split: if_splits)
  qed
  show ?thesis
  proof (rule sorted_wrt_asym_unique [where R = ?R])
    show "\<And>x y. x \<in> set ds \<Longrightarrow> y \<in> set ds \<Longrightarrow> ?R x y \<Longrightarrow> \<not> ?R y x" using asym by blast
    show "mset ds = mset ds'" using a b unfolding stable_sorted_by_def by simp
    show "sorted_wrt ?R ds" using a unfolding stable_sorted_by_def by simp
    show "sorted_wrt ?R ds'" using b unfolding stable_sorted_by_def by simp
  qed
qed

lemma primary_compare_sorter:
  "find (\<lambda>c. dataIndex c = k) cols = Some col \<Longrightarrow> sorter col = Some f \<Longrightarrow>
     primary_compare lt cols k = f"
  by (rule ext)+ (simp add: primary_compare_def)

lemma primary_compare_default:
  "\<forall>col. find (\<lambda>c. dataIndex c = k) cols = Some col \<longrightarrow> sorter col = None \<Longrightarrow>
     primary_compare lt cols k =
       (\<lambda>a b. if lt (cells a k) (cells b k) then - 1 else if lt (cells b k) (cells a k) then 1 else 0)"
  by (rule ext)+ (auto simp: primary_compare_def default_compare_def split: option.splits Option.bind_splits)

lemma set_sortedData:
  assumes "conforming_sort array_sort"
  shows "set (sortedData array_sort lt cols cfg rows) = set rows"
proof (cases cfg)
  case None
  then show ?thesis by (simp add: sortedData_def)
next
  case (Some sc)
  have "mset (sorted_decorated array_sort lt cols sc rows) = mset (enumerate 0 rows)"
    using assms unfolding conforming_sort_def sorted_decorated_def by blast
  then have "set (sorted_decorated array_sort lt cols sc rows) = set (enumerate 0 rows)"
    by (metis set_mset_mset)
  then have "set (map snd (sorted_decorated array_sort lt cols sc rows)) =
      set (map snd (enumerate 0 rows))"
    by (simp del: map_snd_enumerate)
  then show ?thesis using Some by (simp add: sortedData_def)
qed

lemma consistent_default:
  "consistent_comparator S
     (\<lambda>(a :: ('v::linorder) row) b.
        if cells a k < cells b k then - 1 else if cells b k < cells a k then 1 else (0::int))"
  unfolding consistent_comparator_def by auto

lemma consistent_age_sorter: "consistent_comparator S age_sorter"
  unfolding consistent_comparator_def age_sorter_def by auto

text \<open>The example of the specification: ages 32, 28, 45, ascending and descending.\<close>

lemma sorted_three_people:
  "map row_id (sortedData v8_sort (<) [age_column] (Some (by_age ascending)) three_people) =
     [KeyNum 2, KeyNum 1, KeyNum 3] \<and>
   map row_id (sortedData v8_sort (<) [age_column] (Some (by_age descending)) three_people) =
     [KeyNum 3, KeyNum 1, KeyNum 2]"
  by code_simp

text \<open>
  C3, as the claim states it: for every data collection the sorted order is that of the
  comparison with ties in original order. Of four rows the third has no \<open>age\<close>, so the
  default comparison gives 0 between it and every other row, while the others differ.
  Sorted ascending by V8 the rows come out as 2, 4, 1, 3: rows 3 and 4 compare equal, and
  row 4, which is later in the data, is placed before row 3.
\<close>

theorem missing_field_breaks_tie_order:
  "map row_id (sortedData v8_sort lt_or_undefined [optional_age_column] (Some (by_age ascending))
      one_without_age) = [KeyNum 2, KeyNum 4, KeyNum 1, KeyNum 3] \<and>
   map fst (sorted_decorated v8_sort lt_or_undefined [optional_age_column] (by_age ascending)
      one_without_age) = [1, 3, 0, 2] \<and>
   primary_compare lt_or_undefined [optional_age_column] ''age''
      (maybe_aged 4 (Some 32)) (maybe_aged 3 None) = 0 \<and>
   \<not> stable_sorted_by
       (\<lambda>a b. if lt_or_undefined (cells a ''age'') (cells b ''age'') then - 1
               else if lt_or_undefined (cells b ''age'') (cells a ''age'') then 1 else 0)
       ascending one_without_age
       (sorted_decorated v8_sort lt_or_undefined [optional_age_column] (by_age ascending)
          one_without_age)"
proof -
  let ?ds = "sorted_decorated v8_sort lt_or_undefined [optional_age_column] (by_age ascending)
      one_without_age"
  let ?R = "\<lambda>a b. let c = (if ascending = ascending
                then (if lt_or_undefined (cells (snd a) ''age'') (cells (snd b) ''age'') then - 1
                      else if lt_or_undefined (cells (snd b) ''age'') (cells (snd a) ''age'') then 1
                      else (0::int))
                else - (if lt_or_undefined (cells (snd a) ''age'') (cells (snd b) ''age'') then - 1
                      else if lt_or_undefined (cells (snd b) ''age'') (cells (snd a) ''age'') then 1
                      else 0))
            in c < 0 \<or> (c = 0 \<and> fst a < fst b)"
  have ids: "map row_id (sortedData v8_sort lt_or_undefined [optional_age_column]
      (Some (by_age ascending)) one_without_age) = [KeyNum 2, KeyNum 4, KeyNum 1, KeyNum 3]"
    by code_simp
  have idx: "map fst ?ds = [1, 3, 0, 2]"
    by code_simp
  have tie: "primary_compare lt_or_undefined [optional_age_column] ''age''
      (maybe_aged 4 (Some 32)) (maybe_aged 3 None) = 0"
    by code_simp
  have "length (map fst ?ds) = length [1::nat, 3, 0, 2]"
    by (simp only: idx)
  then have len: "length ?ds = 4"
    by simp
  have bad: "\<not> ?R (?ds ! 1) (?ds ! 3)"
    by code_simp
  have "\<not> sorted_wrt ?R ?ds"
  proof
    assume "sorted_wrt ?R ?ds"
    then have "?R (?ds ! 1) (?ds ! 3)"
      by (rule sorted_wrt_nth_less) (simp_all add: len)
    with bad show False by blast
  qed
  then have "\<not> stable_sorted_by
       (\<lambda>a b. if lt_or_undefined (cells a ''age'') (cells b ''age'') then - 1
               else if lt_or_undefined (cells b ''age'') (cells a ''age'') then 1 else 0)
       ascending one_without_age ?ds"
    unfolding stable_sorted_by_def by simp
  with ids idx tie show ?thesis by blast
qed

text \<open>
  C3, amended. On an engine whose \<open>sort\<close> meets ECMAScript, with a sort configuration:
  when the first column with the configured \<open>dataIndex\<close> has a \<open>sorter\<close> and that
  sorter is a consistent comparator on the rows, the sorted rows are the rows paired with
  their index, put in the order of the sorter (negated for descending) with ties in the
  order of the original index, and stripped of the index; when there is no such column or
  it has no sorter, and the default comparison of the field (\<open>-1\<close> for less, \<open>1\<close> for
  greater, \<open>0\<close> otherwise) is consistent on the rows, the same holds with the default
  comparison. For a consistent comparison there is one such order only. Without a
  configuration the rows keep their order.
\<close>

theorem sortedData_stable_sort:
  assumes "conforming_sort array_sort"
  shows "sortedData array_sort lt cols None rows = rows \<and>
         (\<forall>col f. find (\<lambda>c. dataIndex c = key sc) cols = Some col \<and> sorter col = Some f \<and>
                  consistent_comparator (set rows) f \<longrightarrow>
            (\<exists>ds. stable_sorted_by f (direction sc) rows ds \<and>
                  sortedData array_sort lt cols (Some sc) rows = map snd ds)) \<and>
         ((\<forall>col. find (\<lambda>c. dataIndex c = key sc) cols = Some col \<longrightarrow> sorter col = None) \<and>
          consistent_comparator (set rows)
            (\<lambda>a b. if lt (cells a (key sc)) (cells b (key sc)) then - 1
                    else if lt (cells b (key sc)) (cells a (key sc)) then 1 else 0) \<longrightarrow>
            (\<exists>ds. stable_sorted_by
                    (\<lambda>a b. if lt (cells a (key sc)) (cells b (key sc)) then - 1
                            else if lt (cells b (key sc)) (cells a (key sc)) then 1 else 0)
                    (direction sc) rows ds \<and>
                  sortedData array_sort lt cols (Some sc) rows = map snd ds)) \<and>
         (\<forall>cmp ds ds'. consistent_comparator (set rows) cmp \<and>
                       stable_sorted_by cmp (direction sc) rows ds \<and>
                       stable_sorted_by cmp (direction sc) rows ds' \<longrightarrow> ds = ds')"
proof (intro conjI allI impI)
  show "sortedData array_sort lt cols None rows = rows"
    by (simp add: sortedData_def)
next
  fix col f
  assume h: "find (\<lambda>c. dataIndex c = key sc) cols = Some col \<and> sorter col = Some f \<and>
      consistent_comparator (set rows) f"
  then have p: "primary_compare lt cols (key sc) = f"
    using primary_compare_sorter by blast
  have "stable_sorted_by f (direction sc) rows (sorted_decorated array_sort lt cols sc rows)"
    using sorted_decorated_stable [OF assms, of rows lt cols sc] h unfolding p by simp
  then show "\<exists>ds. stable_sorted_by f (direction sc) rows ds \<and>
      sortedData array_sort lt cols (Some sc) rows = map snd ds"
    by (auto simp: sortedData_def)
next
  let ?dflt = "\<lambda>a b. if lt (cells a (key sc)) (cells b (key sc)) then - 1
                    else if lt (cells b (key sc)) (cells a (key sc)) then 1 else (0::int)"
  assume h: "(\<forall>col. find (\<lambda>c. dataIndex c = key sc) cols = Some col \<longrightarrow> sorter col = None) \<and>
      consistent_comparator (set rows) ?dflt"
  then have p: "primary_compare lt cols (key sc) = ?dflt"
    using primary_compare_default by blast
  have "stable_sorted_by ?dflt (direction sc) rows (sorted_decorated array_sort lt cols sc rows)"
    using sorted_decorated_stable [OF assms, of rows lt cols sc] h unfolding p by simp
  then show "\<exists>ds. stable_sorted_by ?dflt (direction sc) rows ds \<and>
      sortedData array_sort lt cols (Some sc) rows = map snd ds"
    by (auto simp: sortedData_def)
next
  fix cmp :: "'a row \<Rightarrow> 'a row \<Rightarrow> int" and ds ds'
  assume "consistent_comparator (set rows) cmp \<and> stable_sorted_by cmp (direction sc) rows ds \<and>
      stable_sorted_by cmp (direction sc) rows ds'"
  then show "ds = ds'" using stable_sorted_by_unique by blast
qed

theorem sortedData_stable_sort_witness:
  "conforming_sort (v8_sort :: (nat \<times> int row \<Rightarrow> nat \<times> int row \<Rightarrow> int) \<Rightarrow> _) \<and>
   find (\<lambda>c. dataIndex c = ''age'') [sorter_column] = Some sorter_column \<and>
   sorter sorter_column = Some age_sorter \<and>
   consistent_comparator (set tied_people) age_sorter \<and>
   sortedData v8_sort (<) [sorter_column] (Some (by_age ascending)) tied_people =
     [person 2 25, person 4 25, person 1 30, person 3 30] \<and>
   sortedData v8_sort (<) [sorter_column] (Some (by_age descending)) tied_people =
     [person 1 30, person 3 30, person 2 25, person 4 25]"
proof -
  have f: "find (\<lambda>c. dataIndex c = key (by_age d)) [sorter_column] = Some sorter_column" for d
    by (simp add: sorter_column_def by_age_def)
  have s: "sorter sorter_column = Some age_sorter"
    by (simp add: sorter_column_def)
  have con: "consistent_comparator (set tied_people) age_sorter"
    by (rule consistent_age_sorter)
  have en: "enumerate 0 tied_people =
      [(0, person 1 30), (1, person 2 25), (2, person 3 30), (3, person 4 25)]"
    by (simp add: tied_people_def)
  have th: "(\<exists>ds. stable_sorted_by age_sorter (direction (by_age d)) tied_people ds \<and>
        sortedData v8_sort (<) [sorter_column] (Some (by_age d)) tied_people = map snd ds) \<and>
      (\<forall>ds ds'. stable_sorted_by age_sorter (direction (by_age d)) tied_people ds \<and>
         stable_sorted_by age_sorter (direction (by_age d)) tied_people ds' \<longrightarrow> ds = ds')" for d
    using sortedData_stable_sort [OF v8_sort_conforming, of "(<)" "[sorter_column]" tied_people "by_age d"]
      f [of d] s con by blast
  have asc: "stable_sorted_by age_sorter (direction (by_age ascending)) tied_people
      [(1, person 2 25), (3, person 4 25), (0, person 1 30), (2, person 3 30)]"
    by (simp add: stable_sorted_by_def en by_age_def age_sorter_def person_def)
  have desc: "stable_sorted_by age_sorter (direction (by_age descending)) tied_people
      [(0, person 1 30), (2, person 3 30), (1, person 2 25), (3, person 4 25)]"
    by (simp add: stable_sorted_by_def en by_age_def age_sorter_def person_def)
  have "sortedData v8_sort (<) [sorter_column] (Some (by_age ascending)) tied_people =
      map snd [(1::nat, person 2 25), (3, person 4 25), (0, person 1 30), (2, person 3 30)]"
    using th [of ascending] asc by metis
  moreover have "sortedData v8_sort (<) [sorter_column] (Some (by_age descending)) tied_people =
      map snd [(0::nat, person 1 30), (2, person 3 30), (1, person 2 25), (3, person 4 25)]"
    using th [of descending] desc by metis
  ultimately show ?thesis
    using f [of ascending] s con v8_sort_conforming by (simp add: by_age_def)
qed

end
